theory Spec2Isabelle
  imports Complex_Main "HOL-Library.Log_Nat" "HOL-Library.Sublist"
begin

section \<open>Python text primitives used by \<open>main.py\<close>\<close>

text \<open>
  A Python \<open>str\<close> is a sequence of code points. The model uses \<^typ>\<open>string\<close> and reads
  each \<^typ>\<open>char\<close> as the code point with that number, so it covers exactly the texts
  whose code points are below 256 (ASCII and Latin-1). On that range \<open>str.isspace\<close>,
  \<open>str.lower\<close>, \<open>str.split\<close> and \<open>str.strip\<close> behave as written below.
\<close>

definition isspace :: "char \<Rightarrow> bool" where
  \<comment> \<open>The white space of \<open>str.split()\<close> and \<open>str.strip()\<close>: TAB..CR, FS..US, SPACE,
      NEL (0x85) and NBSP (0xA0).\<close>
  "isspace c = (let n = (of_char c :: nat) in
     (9 \<le> n \<and> n \<le> 13) \<or> (28 \<le> n \<and> n \<le> 32) \<or> n = 133 \<or> n = 160)"

definition lower_char :: "char \<Rightarrow> char" where
  \<comment> \<open>\<open>A..Z\<close> and the Latin-1 capitals 0xC0..0xDE (without the multiplication sign 0xD7)
      move up by 32; every other code point below 256 is its own lower case.\<close>
  "lower_char c = (let n = (of_char c :: nat) in
     if (65 \<le> n \<and> n \<le> 90) \<or> (192 \<le> n \<and> n \<le> 222 \<and> n \<noteq> 215)
     then char_of (n + 32) else c)"

definition lower :: "string \<Rightarrow> string" where
  "lower s = map lower_char s"

text \<open>\<open>s.split()\<close>: the maximal runs of non-space characters, in order; no empty word.\<close>

fun split_ws_from :: "string \<Rightarrow> string \<Rightarrow> string list" where
  "split_ws_from cur [] = (if cur = [] then [] else [cur])"
| "split_ws_from cur (c # cs) =
     (if isspace c
      then (if cur = [] then split_ws_from [] cs else cur # split_ws_from [] cs)
      else split_ws_from (cur @ [c]) cs)"

definition split_ws :: "string \<Rightarrow> string list" where
  "split_ws s = split_ws_from [] s"

text \<open>\<open>s.split(sep)\<close> for a one-character separator: empty fragments are kept.\<close>

fun split_sep_from :: "char \<Rightarrow> string \<Rightarrow> string \<Rightarrow> string list" where
  "split_sep_from sep cur [] = [cur]"
| "split_sep_from sep cur (c # cs) =
     (if c = sep then cur # split_sep_from sep [] cs
      else split_sep_from sep (cur @ [c]) cs)"

definition split_sep :: "char \<Rightarrow> string \<Rightarrow> string list" where
  "split_sep sep s = split_sep_from sep [] s"

definition strip :: "string \<Rightarrow> string" where
  "strip s = rev (dropWhile isspace (rev (dropWhile isspace s)))"

text \<open>\<open>p in s\<close> on strings: \<open>p\<close> occurs in \<open>s\<close> as a contiguous block.\<close>

fun contains :: "string \<Rightarrow> string \<Rightarrow> bool" where
  "contains [] p = (p = [])"
| "contains (c # cs) p = (prefix p (c # cs) \<or> contains cs p)"

text \<open>\<open>sep.join(xs)\<close>.\<close>

fun join :: "string \<Rightarrow> string list \<Rightarrow> string" where
  "join sep [] = []"
| "join sep [x] = x"
| "join sep (x # y # ys) = x @ sep @ join sep (y # ys)"

section \<open>Python floats\<close>

text \<open>
  A \<open>float\<close> is an IEEE binary64 number; the model keeps its exact value as a
  \<^typ>\<open>rat\<close>. Only quotients of non-negative integers are ever formed here. The exponent
  range of binary64 is not modelled (no overflow, no subnormal numbers): the quotient of
  two list lengths leaves the normal range only for texts longer than \<open>2 ^ 1022\<close>
  characters.
\<close>

definition round_half_even :: "rat \<Rightarrow> int" where
  \<comment> \<open>The nearest integer, a tie going to the even one.\<close>
  "round_half_even x = (let f = \<lfloor>x\<rfloor>; r = x - of_int f in
     if r < 1/2 then f else if 1/2 < r then f + 1 else if even f then f else f + 1)"

definition binexp :: "int \<Rightarrow> int \<Rightarrow> int" where
  \<comment> \<open>For \<open>a, b > 0\<close>: the \<open>e\<close> with \<open>2 ^ e \<le> a / b < 2 ^ (e + 1)\<close>.\<close>
  "binexp a b = (let d = bitlen a - bitlen b in
     if of_int b * (2::rat) powi d \<le> of_int a then d else d - 1)"

definition to_double :: "int \<Rightarrow> int \<Rightarrow> rat" where
  \<comment> \<open>The binary64 number nearest to \<open>a / b\<close> (\<open>a \<ge> 0\<close>, \<open>b > 0\<close>): 53 significant bits,
      round to nearest, ties to even.\<close>
  "to_double a b = (if a = 0 then 0 else
     let e = binexp a b;
         m = round_half_even (of_int a / of_int b * 2 powi (52 - e))
     in of_int m * 2 powi (e - 52))"

definition truediv :: "nat \<Rightarrow> nat \<Rightarrow> rat" where
  \<comment> \<open>\<open>a / b\<close> on Python ints is correctly rounded. Both uses in \<open>analyze_corpus\<close> are
      guarded by a test that the divisor is not zero.\<close>
  "truediv a b = to_double (int a) (int b)"

definition py_round2 :: "rat \<Rightarrow> rat" where
  \<comment> \<open>\<open>round(x, 2)\<close> for a float \<open>x \<ge> 0\<close>: the exact value of \<open>x\<close> is rounded to a multiple
      of \<open>1/100\<close> (ties to even), and the result is the float nearest to that decimal.\<close>
  "py_round2 x = to_double (round_half_even (100 * x)) 100"

definition digit_char :: "nat \<Rightarrow> char" where
  "digit_char d = char_of (48 + d)"

fun str_nat :: "nat \<Rightarrow> string" where
  "str_nat n = (if n < 10 then [digit_char n] else str_nat (n div 10) @ [digit_char (n mod 10)])"

declare str_nat.simps [simp del]

definition str_int :: "int \<Rightarrow> string" where
  "str_int i = (if i < 0 then ''-'' @ str_nat (nat (- i)) else str_nat (nat i))"

datatype py_error = ValueError

definition int_max_str_digits :: nat where
  \<comment> \<open>\<open>sys.int_max_str_digits\<close> at its default (CPython 3.11 and later).\<close>
  "int_max_str_digits = 4300"

definition py_str_int :: "int \<Rightarrow> py_error + string" where
  \<comment> \<open>\<open>str(i)\<close>, which an f-string calls for \<open>{i}\<close>: it raises \<open>ValueError\<close> when \<open>i\<close> has
      more decimal digits (the sign not counted) than \<open>sys.int_max_str_digits\<close>.\<close>
  "py_str_int i = (if int_max_str_digits < length (str_nat (nat \<bar>i\<bar>)) then Inl ValueError
                   else Inr (str_int i))"

definition float_repr :: "rat \<Rightarrow> string" where
  \<comment> \<open>How an f-string prints a float that \<open>round(_, 2)\<close> returned: the shortest decimal
      that reads back as the same float, which for the float nearest to \<open>k / 100\<close> is
      \<open>k / 100\<close> itself with at least one digit after the point. This holds up to 15
      significant digits, that is for values below \<open>10 ^ 13\<close>.\<close>
  "float_repr x = (let k = nat (round_half_even (100 * x)); fp = k mod 100 in
     str_nat (k div 100) @ ''.'' @
     (if fp mod 10 = 0 then str_nat (fp div 10)
      else [digit_char (fp div 10), digit_char (fp mod 10)]))"

section \<open>Data models\<close>

text \<open>
  \<open>AnalyzeRequest\<close> and \<open>GenerateRequest\<close> both have a field \<open>user_id\<close>; the record
  \<open>Request\<close> holds it so that both keep the field's name.
\<close>

record Request =
  user_id :: string

record AnalyzeRequest = Request +
  corpus_text :: string

record AuthorialSignatureModel =
  avg_sentence_length :: rat
  lexical_diversity :: rat
  common_phrases :: "string list"

record GenerateRequest = Request +
  prompt :: string
  tone_level :: int

datatype HTTPException = HTTPException (status_code: nat) (detail: string)

record AegisRating =
  score :: int
  label :: string

record GenerateResponse =
  generated_text :: string
  aegis_rating :: AegisRating

text \<open>\<open>FAKE_USER_DATABASE\<close>: a dictionary from user id to the stored model, empty at start.\<close>

type_synonym database = "string \<rightharpoonup> AuthorialSignatureModel"

section \<open>\<open>analyze_corpus\<close>\<close>

definition known_phrases :: "string list" where
  "known_phrases =
     [''in addition,'', ''however,'', ''for example,'', ''it is clear that'',
      ''on the other hand,'']"

text \<open>
  The endpoint takes the database and returns it: unchanged when it raises, updated at
  \<open>request.user_id\<close> when it returns the model. The \<open>print\<close> call is not modelled.
\<close>

definition analyze_corpus ::
  "database \<Rightarrow> AnalyzeRequest \<Rightarrow> (HTTPException + AuthorialSignatureModel) \<times> database" where
  "analyze_corpus db request =
     (let text = corpus_text request in
      if length (split_ws text) < 50
      then (Inl (HTTPException 400
              ''Corpus text is too short. Please provide at least 50 words.''), db)
      else
        let sentences = split_sep (CHR ''.'') text;
            sentences = filter (\<lambda>s. length (strip s) > 0) sentences;
            total_words = length (split_ws text);
            avg_len = (if sentences \<noteq> [] then truediv total_words (length sentences)
                       else 15);
            words = split_ws (lower text);
            unique_words = set words;
            diversity = (if words \<noteq> [] then truediv (card unique_words) (length words)
                         else 1 / 2);
            found_phrases = filter (\<lambda>p. contains (lower text) p) known_phrases;
            asm = \<lparr>avg_sentence_length = py_round2 avg_len,
                   lexical_diversity = py_round2 diversity,
                   common_phrases = found_phrases\<rparr>
        in (Inr asm, db(user_id request \<mapsto> asm)))"

section \<open>\<open>generate_with_twin\<close>\<close>

definition tone_map :: "int \<rightharpoonup> string" where
  "tone_map = map_of
     [(0, ''extremely formal, academic, and rigid''), (1, ''formal and academic''),
      (2, ''professional and clear''), (3, ''engaging and professional''),
      (4, ''conversational and personal''), (5, ''highly informal, personal, and casual'')]"

definition dict_get :: "('k \<rightharpoonup> 'v) \<Rightarrow> 'k \<Rightarrow> 'v \<Rightarrow> 'v" where
  \<comment> \<open>\<open>d.get(k, default)\<close>\<close>
  "dict_get d k dflt = (case d k of None \<Rightarrow> dflt | Some v \<Rightarrow> v)"

definition nl :: string where
  "nl = [CHR 0x0A]"

definition dq :: string where
  "dq = [CHR 0x22]"

definition system_prompt :: "AuthorialSignatureModel \<Rightarrow> int \<Rightarrow> string" where
  \<comment> \<open>The f-string of lines 110 to 125, with the indentation of the source.\<close>
  "system_prompt asm tone = concat
     [nl,
      ''    You are a Forensic Cognitive Analyst. Your task is to write a response'', nl,
      ''    that is forensically indistinguishable from the user's own writing.'', nl,
      ''    You must adopt their '', dq, ''Authorial Signature Model'', dq, '' (ASM).'', nl,
      nl,
      ''    DO NOT reveal you are an AI. DO NOT be overly helpful.'', nl,
      ''    Simply write the text as requested, embodying the user's style.'', nl,
      nl,
      ''    USER'S AUTHORIAL SIGNATURE MODEL:'', nl,
      ''    - Syntactic Cadence: Write with an average sentence length of approx. '',
        float_repr (avg_sentence_length asm), '' words.'', nl,
      ''    - Lexical Nuance: Maintain a lexical diversity score around '',
        float_repr (lexical_diversity asm), ''.'', nl,
      ''    - Voice Architecture: The user's target tone is: '', dq,
        dict_get tone_map tone ''professional'', dq, ''.'', nl,
      ''    - Common Phrases: If appropriate, try to use phrases like: '',
        join '', '' (common_phrases asm), nl,
      ''    '', nl,
      ''    Your response must *only* be the generated text. No preamble or explanation.'', nl,
      ''    '']"

definition randint :: "int \<Rightarrow> int \<Rightarrow> nat \<Rightarrow> int" where
  \<comment> \<open>\<open>random.randint(a, b)\<close> is \<open>a + _randbelow(b - a + 1)\<close>. The generator's state is
      not modelled: the caller passes the raw draw, and \<open>_randbelow(n)\<close> of a draw is its
      residue modulo \<open>n\<close>.\<close>
  "randint a b draw = a + int draw mod (b - a + 1)"

text \<open>
  The endpoint reads the database and never writes it. It builds \<open>system_prompt\<close> before
  the \<open>try\<close> block and, as in the source, does not use it afterwards; so that the block it
  rendered can be spoken about, the model returns the value of that local variable beside
  the answer (\<open>None\<close> when the endpoint raised 404 before building it).

  Inside the \<open>try\<close> block only the f-string of \<open>generated_text\<close> can raise, when
  \<open>{request.tone_level}\<close> is an integer too long to print; the handler then answers 500.
  Floats always print, and \<open>random.randint\<close> does not raise.
\<close>

record GenerateTrace =
  rendered_prompt :: "string option"
  outcome :: "HTTPException + GenerateResponse"

definition generate_with_twin_trace ::
  "database \<Rightarrow> GenerateRequest \<Rightarrow> nat \<Rightarrow> GenerateTrace" where
  "generate_with_twin_trace db request draw =
     (case db (user_id request) of
        None \<Rightarrow>
          \<lparr>rendered_prompt = None,
           outcome = Inl (HTTPException 404 ''User model not found. Please run analysis first.'')\<rparr>
      | Some asm \<Rightarrow>
          let sp = system_prompt asm (tone_level request) in
          \<lparr>rendered_prompt = Some sp,
           outcome =
             (case py_str_int (tone_level request) of
                Inl e \<Rightarrow> Inl (HTTPException 500 ''AI generation failed.'')
              | Inr tone \<Rightarrow>
                  let text = ''This is a sample text generated in your voice (Tone: ''
                               @ tone @ ''). ''
                               @ ''It respects your average sentence length of ''
                               @ float_repr (avg_sentence_length asm) @ '' words ''
                               @ ''and your lexical diversity. As you can see, I am obeying the prompt.'';
                      aegis_score = randint 85 98 draw;
                      aegis_label = (if aegis_score \<ge> 90 then ''Undetectable''
                                     else ''Likely Human'')
                  in Inr \<lparr>generated_text = text,
                          aegis_rating = \<lparr>score = aegis_score, label = aegis_label\<rparr>\<rparr>)\<rparr>)"

definition generate_with_twin ::
  "database \<Rightarrow> GenerateRequest \<Rightarrow> nat \<Rightarrow> HTTPException + GenerateResponse" where
  \<comment> \<open>What the endpoint answers.\<close>
  "generate_with_twin db request draw = outcome (generate_with_twin_trace db request draw)"

section \<open>The server: a sequence of calls from the empty database\<close>

datatype call = Analyze AnalyzeRequest | Generate GenerateRequest nat

fun serve :: "database \<Rightarrow> call \<Rightarrow> database" where
  "serve db (Analyze request) = snd (analyze_corpus db request)"
| "serve db (Generate request draw) = db"

definition run :: "call list \<Rightarrow> database" where
  "run calls = foldl serve Map.empty calls"

section \<open>Sample inputs\<close>

definition corpus_fifty :: string where
  "corpus_fifty = ''a b c d e f g h i j k l m n o p q r s t u v w x y z aa ab ac ad ae af ag ah ai aj ak al am an ao ap aq ar as at au av aw ax.''"

definition asm_fifty :: AuthorialSignatureModel where
  "asm_fifty = \<lparr>avg_sentence_length = 50, lexical_diversity = 1, common_phrases = []\<rparr>"

definition corpus_phrases :: string where
  "corpus_phrases = ''For example, However, '' @ corpus_fifty"

definition asm_phrases :: AuthorialSignatureModel where
  "asm_phrases = \<lparr>avg_sentence_length = 53, lexical_diversity = 1,
     common_phrases = [''however,'', ''for example,'']\<rparr>"

text \<open>
  A text of 50 words whose last word is \<open>n\<close> one-letter sentences: 49 times the word
  \<open>w\<close>, then \<open>a.a.a. ... a.\<close> without any space.
\<close>

definition dotted_corpus :: "nat \<Rightarrow> string" where
  "dotted_corpus n = concat (replicate 49 ''w '') @ concat (replicate n ''a.'')"

definition asm_dotted :: AuthorialSignatureModel where
  "asm_dotted = \<lparr>avg_sentence_length = 0,
     lexical_diversity = 5764607523034235 / 144115188075855872, common_phrases = []\<rparr>"

definition corpus_mixed_case :: string where
  "corpus_mixed_case = ''A a c d e f g h i j k l m n o p q r s t u v w x y z aa ab ac ad ae af ag ah ai aj ak al am an ao ap aq ar as at au av aw ax.''"

definition asm_mixed_case :: AuthorialSignatureModel where
  "asm_mixed_case = \<lparr>avg_sentence_length = 50,
     lexical_diversity = 2206763817411543 / 2251799813685248, common_phrases = []\<rparr>"

definition corpus_capital_phrase :: string where
  "corpus_capital_phrase = ''However, b c d e f g h i j k l m n o p q r s t u v w x y z aa ab ac ad ae af ag ah ai aj ak al am an ao ap aq ar as at au av aw ax.''"

definition asm_capital_phrase :: AuthorialSignatureModel where
  "asm_capital_phrase = \<lparr>avg_sentence_length = 50, lexical_diversity = 1,
     common_phrases = [''however,'']\<rparr>"


section \<open>Error paths of the two endpoints\<close>

lemma analyze_corpus_short:
  "length (split_ws (corpus_text request)) < 50 \<Longrightarrow>
   analyze_corpus db request =
     (Inl (HTTPException 400 ''Corpus text is too short. Please provide at least 50 words.''), db)"
  by (simp add: analyze_corpus_def)

lemma analyze_corpus_long:
  "50 \<le> length (split_ws (corpus_text request)) \<Longrightarrow>
   \<exists>asm. analyze_corpus db request = (Inr asm, db(user_id request \<mapsto> asm))"
  by (simp add: analyze_corpus_def Let_def)

text \<open>
  C1: \<open>analyze_corpus\<close> answers with an error of status 400 exactly when the text has
  fewer than 50 white-space separated words; in that case the database is returned as it
  was and no model is returned.
\<close>

theorem analyze_rejects_iff_short:
  "((\<exists>e. fst (analyze_corpus db request) = Inl e \<and> status_code e = 400)
      \<longleftrightarrow> length (split_ws (corpus_text request)) < 50)
   \<and> (length (split_ws (corpus_text request)) < 50 \<longrightarrow>
        snd (analyze_corpus db request) = db
        \<and> (\<forall>asm. fst (analyze_corpus db request) \<noteq> Inr asm))"
proof (cases "length (split_ws (corpus_text request)) < 50")
  case True
  then show ?thesis by (simp add: analyze_corpus_short)
next
  case False
  then have "50 \<le> length (split_ws (corpus_text request))" by simp
  from analyze_corpus_long [OF this, of db] obtain asm
    where "analyze_corpus db request = (Inr asm, db(user_id request \<mapsto> asm))" ..
  with False show ?thesis by simp
qed

theorem analyze_rejects_iff_short_witness:
  "length (split_ws ''far too short a text'') < 50
   \<and> (\<exists>e. fst (analyze_corpus Map.empty \<lparr>user_id = ''u'', corpus_text = ''far too short a text''\<rparr>) = Inl e
          \<and> status_code e = 400)
   \<and> snd (analyze_corpus Map.empty \<lparr>user_id = ''u'', corpus_text = ''far too short a text''\<rparr>) = Map.empty"
proof -
  have short: "length (split_ws ''far too short a text'') < 50"
    by code_simp
  show ?thesis
    using short analyze_rejects_iff_short
      [of Map.empty "\<lparr>user_id = ''u'', corpus_text = ''far too short a text''\<rparr>"]
    by simp
qed

lemma length_str_nat_pos: "0 < length (str_nat n)"
  by (subst str_nat.simps) simp

lemma length_str_nat_le: "0 < k \<Longrightarrow> length (str_nat n) \<le> k \<longleftrightarrow> n < 10 ^ k"
proof (induction n arbitrary: k rule: str_nat.induct)
  case (1 n)
  show ?case
  proof (cases "n < 10")
    case True
    have "(10::nat) ^ 1 \<le> 10 ^ k"
      using "1.prems" by (intro power_increasing) simp_all
    with True have "n < 10 ^ k" by simp
    moreover from True have "length (str_nat n) = 1"
      by (subst str_nat.simps) simp
    ultimately show ?thesis using "1.prems" by simp
  next
    case False
    then have len: "length (str_nat n) = Suc (length (str_nat (n div 10)))"
      by (subst str_nat.simps) simp
    show ?thesis
    proof (cases "k = 1")
      case True
      with False len length_str_nat_pos [of "n div 10"] show ?thesis by simp
    next
      case k: False
      with "1.prems" obtain j where j: "k = Suc j" "0 < j"
        by (cases k) auto
      from "1.IH" [OF False j(2)]
      have "length (str_nat (n div 10)) \<le> j \<longleftrightarrow> n div 10 < 10 ^ j" .
      also have "\<dots> \<longleftrightarrow> n < 10 ^ j * 10"
        by (simp add: div_less_iff_less_mult)
      finally show ?thesis by (simp add: len j(1) mult.commute)
    qed
  qed
qed

lemma py_str_int_ok:
  "\<bar>i\<bar> < 10 ^ int_max_str_digits \<Longrightarrow> py_str_int i = Inr (str_int i)"
proof -
  assume "\<bar>i\<bar> < 10 ^ int_max_str_digits"
  then have "int (nat \<bar>i\<bar>) < int (10 ^ int_max_str_digits)" by simp
  then have "nat \<bar>i\<bar> < 10 ^ int_max_str_digits" by (simp only: of_nat_less_iff)
  moreover have "0 < int_max_str_digits" by (simp add: int_max_str_digits_def)
  ultimately have "length (str_nat (nat \<bar>i\<bar>)) \<le> int_max_str_digits"
    by (simp add: length_str_nat_le)
  then show ?thesis by (simp add: py_str_int_def)
qed

lemma py_str_int_too_long:
  "10 ^ int_max_str_digits \<le> \<bar>i\<bar> \<Longrightarrow> py_str_int i = Inl ValueError"
proof -
  assume "10 ^ int_max_str_digits \<le> \<bar>i\<bar>"
  then have "int (10 ^ int_max_str_digits) \<le> int (nat \<bar>i\<bar>)" by simp
  then have "\<not> nat \<bar>i\<bar> < 10 ^ int_max_str_digits" by (simp only: of_nat_le_iff not_less)
  moreover have "0 < int_max_str_digits" by (simp add: int_max_str_digits_def)
  ultimately have "\<not> length (str_nat (nat \<bar>i\<bar>)) \<le> int_max_str_digits"
    by (simp add: length_str_nat_le)
  then show ?thesis by (simp add: py_str_int_def)
qed

lemma one_digit_prints: "\<bar>i :: int\<bar> < 10 \<Longrightarrow> \<bar>i\<bar> < 10 ^ int_max_str_digits"
proof -
  assume "\<bar>i\<bar> < 10"
  moreover have "(10::int) ^ 1 \<le> 10 ^ int_max_str_digits"
    by (intro power_increasing) (simp_all add: int_max_str_digits_def)
  ultimately show ?thesis by simp
qed

lemma generate_None:
  "db (user_id request) = None \<Longrightarrow>
   generate_with_twin db request draw =
     Inl (HTTPException 404 ''User model not found. Please run analysis first.'')"
  by (simp add: generate_with_twin_def generate_with_twin_trace_def)

lemma generate_Some:
  "db (user_id request) = Some asm \<Longrightarrow> \<bar>tone_level request\<bar> < 10 ^ int_max_str_digits \<Longrightarrow>
   \<exists>resp. generate_with_twin db request draw = Inr resp"
  by (simp add: generate_with_twin_def generate_with_twin_trace_def Let_def py_str_int_ok)

lemma generate_too_long:
  "db (user_id request) = Some asm \<Longrightarrow> 10 ^ int_max_str_digits \<le> \<bar>tone_level request\<bar> \<Longrightarrow>
   generate_with_twin db request draw = Inl (HTTPException 500 ''AI generation failed.'')"
  by (simp add: generate_with_twin_def generate_with_twin_trace_def Let_def py_str_int_too_long)

lemma generate_Some_cases:
  "db (user_id request) = Some asm \<Longrightarrow>
   (\<exists>resp. generate_with_twin db request draw = Inr resp)
   \<or> generate_with_twin db request draw = Inl (HTTPException 500 ''AI generation failed.'')"
  using generate_Some [of db request asm draw] generate_too_long [of db request asm draw]
  by (cases "\<bar>tone_level request\<bar> < 10 ^ int_max_str_digits") simp_all


lemma serve_dom:
  assumes that: "u \<in> dom (serve db c)"
  shows "u \<in> dom db \<or> (\<exists>r. c = Analyze r \<and> user_id r = u \<and> 50 \<le> length (split_ws (corpus_text r)))"
proof (cases c)
  case (Analyze r)
  show ?thesis
  proof (cases "length (split_ws (corpus_text r)) < 50")
    case True
    with Analyze show ?thesis
      using that by (simp add: analyze_corpus_short)
  next
    case False
    then have "50 \<le> length (split_ws (corpus_text r))" by simp
    from analyze_corpus_long [OF this, of db] obtain asm
      where "analyze_corpus db r = (Inr asm, db(user_id r \<mapsto> asm))" ..
    with Analyze False that show ?thesis by (auto split: if_splits)
  qed
next
  case (Generate r d)
  with that show ?thesis by simp
qed

lemma foldl_serve_dom:
  "u \<in> dom (foldl serve db calls) \<Longrightarrow>
   u \<in> dom db \<or> (\<exists>r. Analyze r \<in> set calls \<and> user_id r = u \<and> 50 \<le> length (split_ws (corpus_text r)))"
proof (induction calls arbitrary: db)
  case Nil
  then show ?case by simp
next
  case (Cons c calls)
  from Cons.prems have "u \<in> dom (foldl serve (serve db c) calls)" by simp
  from Cons.IH [OF this] serve_dom [of u db c] show ?case by auto
qed

text \<open>
  C2: \<open>generate_with_twin\<close> answers with an error of status 404 exactly when the database
  holds no model under the request's user id. In particular it does so after any sequence
  of calls, started on the empty database, in which every \<open>analyze_corpus\<close> call for that
  user id was on a text of fewer than 50 words.
\<close>

theorem generate_not_found_iff:
  "((\<exists>e. generate_with_twin db request draw = Inl e \<and> status_code e = 404)
      \<longleftrightarrow> db (user_id request) = None)
   \<and> ((\<forall>r. Analyze r \<in> set calls \<and> user_id r = user_id request
            \<longrightarrow> length (split_ws (corpus_text r)) < 50)
        \<longrightarrow> (\<exists>e. generate_with_twin (run calls) request draw = Inl e \<and> status_code e = 404))"
proof (intro conjI impI)
  show "(\<exists>e. generate_with_twin db request draw = Inl e \<and> status_code e = 404)
      \<longleftrightarrow> db (user_id request) = None"
  proof (cases "db (user_id request)")
    case None
    then show ?thesis by (simp add: generate_None)
  next
    case (Some asm)
    from generate_Some_cases [of db request asm draw, OF this]
    have "\<not> (\<exists>e. generate_with_twin db request draw = Inl e \<and> status_code e = 404)"
      by auto
    with Some show ?thesis by simp
  qed
next
  assume none: "\<forall>r. Analyze r \<in> set calls \<and> user_id r = user_id request
            \<longrightarrow> length (split_ws (corpus_text r)) < 50"
  have "user_id request \<notin> dom (run calls)"
  proof
    assume "user_id request \<in> dom (run calls)"
    then have "user_id request \<in> dom (foldl serve Map.empty calls)"
      by (simp add: run_def)
    from foldl_serve_dom [OF this] none show False by fastforce
  qed
  then have "run calls (user_id request) = None" by auto
  then show "\<exists>e. generate_with_twin (run calls) request draw = Inl e \<and> status_code e = 404"
    by (simp add: generate_None)
qed

lemma analyze_fifty:
  "fst (analyze_corpus Map.empty \<lparr>user_id = ''v'', corpus_text = corpus_fifty\<rparr>) = Inr asm_fifty"
  by code_simp

theorem generate_not_found_iff_witness:
  "(\<exists>e. generate_with_twin
          (run [Analyze \<lparr>user_id = ''u'', corpus_text = ''far too short a text''\<rparr>,
                Analyze \<lparr>user_id = ''v'', corpus_text = corpus_fifty\<rparr>,
                Generate \<lparr>user_id = ''v'', prompt = ''p'', tone_level = 1\<rparr> 3])
          \<lparr>user_id = ''u'', prompt = ''write'', tone_level = 2\<rparr> 0 = Inl e
        \<and> status_code e = 404)"
proof -
  have short: "length (split_ws ''far too short a text'') < 50"
    by code_simp
  show ?thesis
    using short generate_not_found_iff
      [of Map.empty "\<lparr>user_id = ''u'', prompt = ''write'', tone_level = 2\<rparr>" 0
          "[Analyze \<lparr>user_id = ''u'', corpus_text = ''far too short a text''\<rparr>,
            Analyze \<lparr>user_id = ''v'', corpus_text = corpus_fifty\<rparr>,
            Generate \<lparr>user_id = ''v'', prompt = ''p'', tone_level = 1\<rparr> 3]"]
    by auto
qed

section \<open>The rating of \<open>generate_with_twin\<close>\<close>

lemma randint_range: "85 \<le> randint 85 98 draw \<and> randint 85 98 draw \<le> 98"
  by (simp add: randint_def)

text \<open>
  C4: whenever \<open>generate_with_twin\<close> returns a response, whatever the draw of the random
  generator, the score is an integer from 85 to 98, the label is \<open>Undetectable\<close> exactly
  when the score is at least 90, and \<open>Likely Human\<close> exactly when it is below 90.
\<close>

theorem generate_rating:
  "generate_with_twin db request draw = Inr resp \<Longrightarrow>
   85 \<le> score (aegis_rating resp) \<and> score (aegis_rating resp) \<le> 98
   \<and> (label (aegis_rating resp) = ''Undetectable'' \<longleftrightarrow> 90 \<le> score (aegis_rating resp))
   \<and> (label (aegis_rating resp) = ''Likely Human'' \<longleftrightarrow> score (aegis_rating resp) < 90)"
proof -
  assume ok: "generate_with_twin db request draw = Inr resp"
  then obtain asm where "db (user_id request) = Some asm"
    by (cases "db (user_id request)")
      (simp_all add: generate_with_twin_def generate_with_twin_trace_def)
  with ok have sc: "score (aegis_rating resp) = randint 85 98 draw"
    and lb: "label (aegis_rating resp) =
      (if randint 85 98 draw \<ge> 90 then ''Undetectable'' else ''Likely Human'')"
    by (auto simp add: generate_with_twin_def generate_with_twin_trace_def Let_def
          split: sum.splits)
  from randint_range [of draw] sc lb show ?thesis by simp
qed

theorem generate_rating_witness:
  "\<exists>resp. generate_with_twin [''u'' \<mapsto> asm_fifty]
            \<lparr>user_id = ''u'', prompt = ''p'', tone_level = 3\<rparr> 2 = Inr resp
     \<and> score (aegis_rating resp) = 87 \<and> label (aegis_rating resp) = ''Likely Human''
     \<and> 85 \<le> score (aegis_rating resp) \<and> score (aegis_rating resp) \<le> 98"
proof -
  obtain resp where r: "generate_with_twin [''u'' \<mapsto> asm_fifty]
            \<lparr>user_id = ''u'', prompt = ''p'', tone_level = 3\<rparr> 2 = Inr resp"
    using generate_Some [of "[''u'' \<mapsto> asm_fifty]"
      "\<lparr>user_id = ''u'', prompt = ''p'', tone_level = 3\<rparr>" asm_fifty 2]
      one_digit_prints [of 3] by auto
  then have "score (aegis_rating resp) = 87"
    by (auto simp add: generate_with_twin_def generate_with_twin_trace_def Let_def randint_def
          split: sum.splits)
  with r generate_rating [OF r] show ?thesis by auto
qed

section \<open>What the results do not depend on\<close>

text \<open>
  C8: \<open>analyze_corpus\<close> is a function of the text alone: two calls on the same
  \<open>corpus_text\<close> return the same model (or the same error), whatever the user ids and
  whatever the database holds at each call.
\<close>

theorem analyze_deterministic:
  "fst (analyze_corpus db1 \<lparr>user_id = u1, corpus_text = text\<rparr>)
   = fst (analyze_corpus db2 \<lparr>user_id = u2, corpus_text = text\<rparr>)"
  by (simp add: analyze_corpus_def Let_def)

text \<open>
  C10: the response of \<open>generate_with_twin\<close> does not depend on \<open>prompt\<close>: two requests
  with the same user id and tone level, on the same database and with the same draw, get
  the same response (the same text and rating, or the same error) whatever their prompts.
\<close>

theorem generate_ignores_prompt:
  "generate_with_twin db \<lparr>user_id = u, prompt = p1, tone_level = t\<rparr> draw
   = generate_with_twin db \<lparr>user_id = u, prompt = p2, tone_level = t\<rparr> draw"
  by (cases "db u") (simp_all add: generate_with_twin_def generate_with_twin_trace_def)

section \<open>The tone phrase\<close>









section \<open>Facts about the text primitives\<close>

lemma contains_sublist: "contains s p \<longleftrightarrow> sublist p s"
  by (induction s) (simp_all add: sublist_Cons_right)

lemma isspace_lower_char: "isspace (lower_char c) = isspace c"
proof -
  have "(of_char c :: nat) < 256"
    by (rule nat_of_char_less_256)
  then show ?thesis
    by (auto simp add: isspace_def lower_char_def Let_def)
qed

lemma lower_Nil_iff: "lower s = [] \<longleftrightarrow> s = []"
  by (simp add: lower_def)

lemma lower_append: "lower (s @ t) = lower s @ lower t"
  by (simp add: lower_def)

lemma split_ws_from_lower:
  "split_ws_from (lower cur) (lower s) = map lower (split_ws_from cur s)"
proof (induction s arbitrary: cur)
  case Nil
  then show ?case by (simp add: lower_def)
next
  case (Cons c s)
  have step: "lower (cur @ [c]) = lower cur @ [lower_char c]"
    by (simp add: lower_def)
  have nil: "lower [] = []"
    by (simp add: lower_def)
  have "lower (c # s) = lower_char c # lower s"
    by (simp add: lower_def)
  then show ?case
    using Cons.IH [of "cur @ [c]"] Cons.IH [of "[]"]
    by (simp add: isspace_lower_char lower_Nil_iff step nil)
qed

lemma split_ws_lower: "split_ws (lower s) = map lower (split_ws s)"
  using split_ws_from_lower [of "[]" s] by (simp add: split_ws_def lower_def)

lemma split_ws_from_nonspace:
  "\<forall>x\<in>set w. \<not> isspace x \<Longrightarrow> split_ws_from cur (w @ rest) = split_ws_from (cur @ w) rest"
  by (induction w arbitrary: cur) simp_all

lemma split_ws_from_space:
  "\<forall>x\<in>set s. isspace x \<Longrightarrow> split_ws_from [] (s @ rest) = split_ws_from [] rest"
  by (induction s) simp_all

lemma split_sep_from_frag:
  "sep \<notin> set s \<Longrightarrow>
   split_sep_from sep cur (s @ sep # rest) = (cur @ s) # split_sep_from sep [] rest"
  by (induction s arbitrary: cur) auto

lemma split_sep_from_last:
  "sep \<notin> set s \<Longrightarrow> split_sep_from sep cur s = [cur @ s]"
  by (induction s arbitrary: cur) auto

lemma strip_Nil_iff: "strip s = [] \<longleftrightarrow> (\<forall>c\<in>set s. isspace c)"
proof
  assume "strip s = []"
  then have "\<forall>c\<in>set (dropWhile isspace s). isspace c"
    by (simp add: strip_def dropWhile_eq_Nil_conv)
  then have "dropWhile isspace s = []"
    by (metis hd_dropWhile hd_in_set)
  then show "\<forall>c\<in>set s. isspace c"
    by (simp add: dropWhile_eq_Nil_conv)
next
  assume "\<forall>c\<in>set s. isspace c"
  then have drop: "dropWhile isspace s = []"
    by (simp add: dropWhile_eq_Nil_conv)
  show "strip s = []"
    by (simp only: strip_def drop rev.simps dropWhile.simps)
qed

lemma analyze_corpus_Inr:
  assumes "fst (analyze_corpus db request) = Inr asm"
  shows "50 \<le> length (split_ws (corpus_text request))"
    and "avg_sentence_length asm = py_round2
          (if filter (\<lambda>s. length (strip s) > 0) (split_sep (CHR ''.'') (corpus_text request)) \<noteq> []
           then truediv (length (split_ws (corpus_text request)))
                  (length (filter (\<lambda>s. length (strip s) > 0)
                     (split_sep (CHR ''.'') (corpus_text request))))
           else 15)"
    and "lexical_diversity asm = py_round2
          (if split_ws (lower (corpus_text request)) \<noteq> []
           then truediv (card (set (split_ws (lower (corpus_text request)))))
                  (length (split_ws (lower (corpus_text request))))
           else 1 / 2)"
    and "common_phrases asm = filter (\<lambda>p. contains (lower (corpus_text request)) p) known_phrases"
proof -
  show len: "50 \<le> length (split_ws (corpus_text request))"
  proof (rule ccontr)
    assume "\<not> 50 \<le> length (split_ws (corpus_text request))"
    then have "length (split_ws (corpus_text request)) < 50" by simp
    from analyze_corpus_short [OF this, of db] assms show False by simp
  qed
  then have "\<not> length (split_ws (corpus_text request)) < 50" by simp
  then have eq: "fst (analyze_corpus db request) = Inr
     \<lparr>avg_sentence_length = py_round2
          (if filter (\<lambda>s. length (strip s) > 0) (split_sep (CHR ''.'') (corpus_text request)) \<noteq> []
           then truediv (length (split_ws (corpus_text request)))
                  (length (filter (\<lambda>s. length (strip s) > 0)
                     (split_sep (CHR ''.'') (corpus_text request))))
           else 15),
       lexical_diversity = py_round2
          (if split_ws (lower (corpus_text request)) \<noteq> []
           then truediv (card (set (split_ws (lower (corpus_text request)))))
                  (length (split_ws (lower (corpus_text request))))
           else 1 / 2),
       common_phrases = filter (\<lambda>p. contains (lower (corpus_text request)) p) known_phrases\<rparr>"
    by (simp add: analyze_corpus_def Let_def)
  with assms show "avg_sentence_length asm = py_round2
          (if filter (\<lambda>s. length (strip s) > 0) (split_sep (CHR ''.'') (corpus_text request)) \<noteq> []
           then truediv (length (split_ws (corpus_text request)))
                  (length (filter (\<lambda>s. length (strip s) > 0)
                     (split_sep (CHR ''.'') (corpus_text request))))
           else 15)"
    by auto
  from eq assms show "lexical_diversity asm = py_round2
          (if split_ws (lower (corpus_text request)) \<noteq> []
           then truediv (card (set (split_ws (lower (corpus_text request)))))
                  (length (split_ws (lower (corpus_text request))))
           else 1 / 2)"
    by auto
  from eq assms show "common_phrases asm = filter (\<lambda>p. contains (lower (corpus_text request)) p) known_phrases"
    by auto
qed

section \<open>The phrases found by \<open>analyze_corpus\<close>\<close>

lemma analyze_phrases:
  "fst (analyze_corpus Map.empty \<lparr>user_id = ''u'', corpus_text = corpus_phrases\<rparr>) = Inr asm_phrases"
  by code_simp

text \<open>
  C5: when \<open>analyze_corpus\<close> returns a model, its \<open>common_phrases\<close> are exactly the known
  phrases that occur as a contiguous block of the lower-cased text, in the order of
  \<open>known_phrases\<close>; so they form a subsequence of \<open>known_phrases\<close>.
\<close>

theorem common_phrases_exact:
  "fst (analyze_corpus db request) = Inr asm \<Longrightarrow>
   common_phrases asm = filter (\<lambda>p. sublist p (lower (corpus_text request))) known_phrases
   \<and> subseq (common_phrases asm) known_phrases"
proof -
  assume "fst (analyze_corpus db request) = Inr asm"
  then have "common_phrases asm = filter (\<lambda>p. contains (lower (corpus_text request)) p) known_phrases"
    by (rule analyze_corpus_Inr(4))
  then have eq: "common_phrases asm = filter (\<lambda>p. sublist p (lower (corpus_text request))) known_phrases"
    by (simp add: contains_sublist)
  then show ?thesis
    by (simp add: subseq_filter_left)
qed

theorem common_phrases_exact_witness:
  "fst (analyze_corpus Map.empty \<lparr>user_id = ''u'', corpus_text = corpus_phrases\<rparr>) = Inr asm_phrases
   \<and> [''however,'', ''for example,''] = filter (\<lambda>p. sublist p (lower corpus_phrases)) known_phrases
   \<and> subseq [''however,'', ''for example,''] known_phrases"
  using analyze_phrases common_phrases_exact [OF analyze_phrases]
  by (simp add: asm_phrases_def)

section \<open>Facts about the float model\<close>

lemma rhe_floor_cases: "round_half_even x = \<lfloor>x\<rfloor> \<or> round_half_even x = \<lfloor>x\<rfloor> + 1"
  by (simp add: round_half_even_def Let_def)

lemma rhe_ge_int: "of_int n \<le> x \<Longrightarrow> n \<le> round_half_even x"
proof -
  assume "of_int n \<le> x"
  then have "n \<le> \<lfloor>x\<rfloor>" by (simp add: le_floor_iff)
  with rhe_floor_cases [of x] show ?thesis by auto
qed

lemma rhe_le_int: "x \<le> of_int n \<Longrightarrow> round_half_even x \<le> n"
proof (cases "x = of_int n")
  case True
  then show ?thesis by (simp add: round_half_even_def)
next
  case False
  assume "x \<le> of_int n"
  with False have "x < of_int n" by simp
  then have "\<lfloor>x\<rfloor> < n" by (simp add: floor_less_iff)
  with rhe_floor_cases [of x] show ?thesis by auto
qed

lemma rhe_gt_half: "of_int n - 1 / 2 < x \<Longrightarrow> n \<le> round_half_even x"
proof -
  assume h: "of_int n - 1 / 2 < x"
  have fl: "of_int \<lfloor>x\<rfloor> \<le> x" "x < of_int \<lfloor>x\<rfloor> + 1"
    by linarith+
  show ?thesis
  proof (cases "x - of_int \<lfloor>x\<rfloor> < 1 / 2")
    case True
    with h have "(of_int n :: rat) < of_int \<lfloor>x\<rfloor> + 1" by linarith
    then have "n < \<lfloor>x\<rfloor> + 1" by linarith
    with rhe_floor_cases [of x] show ?thesis by auto
  next
    case False
    from h fl have "(of_int n :: rat) < of_int \<lfloor>x\<rfloor> + 2" by linarith
    then have n: "n \<le> \<lfloor>x\<rfloor> + 1" by linarith
    show ?thesis
    proof (cases "1 / 2 < x - of_int \<lfloor>x\<rfloor>")
      case True
      with False have "round_half_even x = \<lfloor>x\<rfloor> + 1"
        by (simp add: round_half_even_def Let_def)
      with n show ?thesis by simp
    next
      case False
      with \<open>\<not> x - of_int \<lfloor>x\<rfloor> < 1 / 2\<close> have "x = of_int \<lfloor>x\<rfloor> + 1 / 2" by linarith
      with h have "(of_int n :: rat) < of_int \<lfloor>x\<rfloor> + 1" by linarith
      then have "n \<le> \<lfloor>x\<rfloor>" by linarith
      with rhe_floor_cases [of x] show ?thesis by auto
    qed
  qed
qed

lemma bitlen_powi_bounds:
  assumes "0 < a"
  shows "(2::rat) powi (bitlen a - 1) \<le> of_int a" and "of_int a < (2::rat) powi (bitlen a)"
proof -
  from bitlen_bounds [OF assms]
  have lo: "2 ^ nat (bitlen a - 1) \<le> a" and hi: "a < 2 ^ nat (bitlen a)" by auto
  from assms have pos: "1 \<le> bitlen a"
    using bitlen_eq_zero_iff [of a] bitlen_nonneg [of a] by linarith
  have "(2::rat) powi (bitlen a - 1) = 2 ^ nat (bitlen a - 1)"
    using pos by (simp add: power_int_def)
  also have "\<dots> = of_int (2 ^ nat (bitlen a - 1))" by simp
  also have "\<dots> \<le> of_int a" using lo by (simp only: of_int_le_iff)
  finally show "(2::rat) powi (bitlen a - 1) \<le> of_int a" .
  have "(of_int a :: rat) < of_int (2 ^ nat (bitlen a))" using hi by (simp only: of_int_less_iff)
  also have "\<dots> = 2 ^ nat (bitlen a)" by simp
  also have "\<dots> = (2::rat) powi (bitlen a)"
    using pos by (simp add: power_int_def)
  finally show "of_int a < (2::rat) powi (bitlen a)" .
qed

lemma binexp_bounds:
  assumes "0 < a" and "0 < b"
  shows "(2::rat) powi (binexp a b) \<le> of_int a / of_int b"
    and "of_int a / of_int b < (2::rat) powi (binexp a b + 1)"
proof -
  define d where "d = bitlen a - bitlen b"
  have bpos: "(0::rat) < of_int b" using assms by simp
  note A = bitlen_powi_bounds [OF assms(1)]
  note B = bitlen_powi_bounds [OF assms(2)]
  have up: "of_int a < of_int b * (2::rat) powi (d + 1)"
  proof -
    have "(2::rat) powi (bitlen a) = 2 powi (bitlen b - 1) * 2 powi (d + 1)"
      by (simp add: d_def power_int_add [symmetric])
    also have "\<dots> \<le> of_int b * 2 powi (d + 1)"
      using B(1) by (simp add: mult_right_mono)
    finally show ?thesis using A(2) by linarith
  qed
  have low: "of_int b * (2::rat) powi (d - 1) < of_int a"
  proof -
    have "of_int b * (2::rat) powi (d - 1) < 2 powi (bitlen b) * 2 powi (d - 1)"
      using B(2) by (simp add: mult_strict_right_mono)
    also have "\<dots> = 2 powi (bitlen a - 1)"
      by (simp add: d_def power_int_add [symmetric])
    finally show ?thesis using A(1) by linarith
  qed
  show "(2::rat) powi (binexp a b) \<le> of_int a / of_int b"
  proof (cases "of_int b * (2::rat) powi d \<le> of_int a")
    case True
    then have "binexp a b = d" by (simp add: binexp_def d_def)
    with True bpos show ?thesis by (simp add: pos_le_divide_eq mult.commute)
  next
    case False
    then have "binexp a b = d - 1" by (simp add: binexp_def d_def)
    with low bpos show ?thesis by (simp add: pos_le_divide_eq mult.commute)
  qed
  show "of_int a / of_int b < (2::rat) powi (binexp a b + 1)"
  proof (cases "of_int b * (2::rat) powi d \<le> of_int a")
    case True
    then have "binexp a b = d" by (simp add: binexp_def d_def)
    with up bpos show ?thesis by (simp add: pos_divide_less_eq mult.commute)
  next
    case False
    then have "binexp a b = d - 1" by (simp add: binexp_def d_def)
    with False bpos show ?thesis by (simp add: pos_divide_less_eq mult.commute)
  qed
qed

lemma to_double_unfold:
  "a \<noteq> 0 \<Longrightarrow> to_double a b =
     of_int (round_half_even (of_int a / of_int b * 2 powi (52 - binexp a b)))
       * 2 powi (binexp a b - 52)"
  by (simp add: to_double_def Let_def)

lemma two_powi_52: "(2::rat) powi 52 = of_int (2 ^ 52)"
  by simp

lemma two_powi_split: "(2::rat) powi m * 2 powi (n - m) = 2 powi n"
proof -
  have "(2::rat) powi (m + (n - m)) = 2 powi m * 2 powi (n - m)"
    by (rule power_int_add) simp
  then show ?thesis by simp
qed

lemma to_double_ge_pow:
  assumes "0 < a" and "0 < b"
  shows "(2::rat) powi (binexp a b) \<le> to_double a b"
proof -
  define e where "e = binexp a b"
  define x where "x = of_int a / of_int b * (2::rat) powi (52 - e)"
  have "(of_int (2 ^ 52) :: rat) = 2 powi e * 2 powi (52 - e)"
    by (simp only: two_powi_split two_powi_52 [symmetric])
  also have "\<dots> \<le> x"
    using binexp_bounds(1) [OF assms] unfolding e_def x_def by (intro mult_right_mono) simp_all
  finally have "2 ^ 52 \<le> round_half_even x"
    by (rule rhe_ge_int)
  then have "(of_int (2 ^ 52) :: rat) \<le> of_int (round_half_even x)"
    by (simp only: of_int_le_iff)
  then have "(of_int (2 ^ 52) :: rat) * 2 powi (e - 52) \<le> of_int (round_half_even x) * 2 powi (e - 52)"
    by (intro mult_right_mono) simp_all
  moreover have "(of_int (2 ^ 52) :: rat) * 2 powi (e - 52) = 2 powi e"
    by (simp only: two_powi_split two_powi_52 [symmetric])
  moreover have "to_double a b = of_int (round_half_even x) * 2 powi (e - 52)"
    using assms(1) by (simp add: to_double_unfold e_def x_def)
  ultimately show ?thesis
    by (simp only: e_def)
qed

lemma to_double_pos: "0 < a \<Longrightarrow> 0 < b \<Longrightarrow> 0 < to_double a b"
proof -
  assume "0 < a" and "0 < b"
  then have "(2::rat) powi (binexp a b) \<le> to_double a b"
    by (rule to_double_ge_pow)
  moreover have "(0::rat) < 2 powi (binexp a b)" by simp
  ultimately show ?thesis by linarith
qed

lemma to_double_nonneg: "0 \<le> a \<Longrightarrow> 0 < b \<Longrightarrow> 0 \<le> to_double a b"
proof (cases "a = 0")
  case True
  then show ?thesis by (simp add: to_double_def)
next
  case False
  assume "0 \<le> a" and "0 < b"
  with False have "0 < to_double a b" by (simp add: to_double_pos)
  then show ?thesis by simp
qed

lemma to_double_le_grid:
  assumes "0 < a" and "0 < b"
    and "of_int a / of_int b * (2::rat) powi (52 - binexp a b) \<le> of_int n"
  shows "to_double a b \<le> of_int n * 2 powi (binexp a b - 52)"
proof -
  from assms(3) have "round_half_even (of_int a / of_int b * 2 powi (52 - binexp a b)) \<le> n"
    by (rule rhe_le_int)
  then have "(of_int (round_half_even (of_int a / of_int b * 2 powi (52 - binexp a b))) :: rat)
      \<le> of_int n"
    by (simp only: of_int_le_iff)
  then show ?thesis
    using assms(1) by (simp add: to_double_unfold mult_right_mono)
qed

lemma to_double_ge_grid:
  assumes "0 < a" and "0 < b"
    and "of_int n - 1 / 2 < of_int a / of_int b * (2::rat) powi (52 - binexp a b)"
  shows "of_int n * 2 powi (binexp a b - 52) \<le> to_double a b"
proof -
  from assms(3) have "n \<le> round_half_even (of_int a / of_int b * 2 powi (52 - binexp a b))"
    by (rule rhe_gt_half)
  then have "(of_int n :: rat)
      \<le> of_int (round_half_even (of_int a / of_int b * 2 powi (52 - binexp a b)))"
    by (simp only: of_int_le_iff)
  then show ?thesis
    using assms(1) by (simp add: to_double_unfold mult_right_mono)
qed

lemma to_double_le_one:
  assumes "0 < a" and "a \<le> b"
  shows "to_double a b \<le> 1"
proof -
  define e where "e = binexp a b"
  from assms have b: "0 < b" by simp
  then have bpos: "(0::rat) < of_int b" by simp
  from assms have q: "of_int a / of_int b \<le> (1::rat)"
    using bpos by (simp add: pos_divide_le_eq)
  from binexp_bounds(1) [OF assms(1) b] q have "(2::rat) powi e \<le> 1"
    by (simp add: e_def)
  then have e0: "e \<le> 0"
    by (metis less_le_not_le linorder_le_less_linear one_less_numeral_iff
        power_int_0_right power_int_strict_increasing semiring_norm(76))
  then have int_pow: "(2::rat) powi (52 - e) = of_int (2 ^ nat (52 - e))"
    by (simp add: power_int_def)
  have "of_int a / of_int b * (2::rat) powi (52 - e) \<le> 1 * 2 powi (52 - e)"
    using q by (intro mult_right_mono) simp_all
  then have "of_int a / of_int b * (2::rat) powi (52 - e) \<le> of_int (2 ^ nat (52 - e))"
    by (simp add: int_pow)
  then have "to_double a b \<le> of_int (2 ^ nat (52 - e)) * 2 powi (e - 52)"
    unfolding e_def by (rule to_double_le_grid [OF assms(1) b])
  also have "(of_int (2 ^ nat (52 - e)) :: rat) * 2 powi (e - 52) = 2 powi (52 - e) * 2 powi (e - 52)"
    by (simp only: int_pow)
  also have "\<dots> = 1"
    using two_powi_split [of "52 - e" 0] by simp
  finally show ?thesis .
qed

lemma powi_le_exp: "(2::rat) powi m < 2 powi n \<Longrightarrow> m < n"
proof (rule ccontr)
  assume less: "(2::rat) powi m < 2 powi n" and "\<not> m < n"
  then have "n \<le> m" by simp
  then have "(2::rat) powi n \<le> 2 powi m"
    by (rule power_int_increasing) simp
  with less show False by simp
qed

lemma to_double_gt_200th:
  assumes "0 < a" and "0 < b" and "b \<le> 200 * a"
  shows "1 / 200 < to_double a b"
proof -
  define e where "e = binexp a b"
  have bpos: "(0::rat) < of_int b" using assms by simp
  from assms(3) have "(of_int b :: rat) \<le> of_int (200 * a)"
    by (simp only: of_int_le_iff)
  then have q: "1 / 200 \<le> (of_int a / of_int b :: rat)"
    using bpos by (simp add: pos_le_divide_eq)
  have "(2::rat) powi (- 8) < 1 / 200" by simp
  also note q
  also have "of_int a / of_int b < (2::rat) powi (e + 1)"
    unfolding e_def by (rule binexp_bounds(2) [OF assms(1,2)])
  finally have "- 8 < e + 1" by (rule powi_le_exp)
  then have e8: "- 8 \<le> e" by simp
  show ?thesis
  proof (cases "e = - 8")
    case True
    have "(of_int 5764607523034235 - 1 / 2 :: rat) < 1 / 200 * 2 powi 60"
      by simp
    also have "\<dots> \<le> of_int a / of_int b * 2 powi 60"
      using q by (intro mult_right_mono) simp_all
    finally have "of_int 5764607523034235 - 1 / 2 < of_int a / of_int b * (2::rat) powi (52 - binexp a b)"
      using True by (simp add: e_def)
    then have "of_int 5764607523034235 * 2 powi (binexp a b - 52) \<le> to_double a b"
      by (rule to_double_ge_grid [OF assms(1,2)])
    moreover have "(1 / 200 :: rat) < of_int 5764607523034235 * 2 powi (binexp a b - 52)"
      using True by (simp add: e_def)
    ultimately show ?thesis by linarith
  next
    case False
    with e8 have "- 7 \<le> e" by simp
    then have "(2::rat) powi (- 7) \<le> 2 powi e"
      by (rule power_int_increasing) simp
    moreover have "(1 / 200 :: rat) < 2 powi (- 7)" by simp
    moreover have "(2::rat) powi e \<le> to_double a b"
      unfolding e_def by (rule to_double_ge_pow [OF assms(1,2)])
    ultimately show ?thesis by linarith
  qed
qed

lemma py_round2_nonneg: "0 \<le> x \<Longrightarrow> 0 \<le> py_round2 x"
proof -
  assume "0 \<le> x"
  then have "of_int 0 \<le> 100 * x" by simp
  then have "0 \<le> round_half_even (100 * x)" by (rule rhe_ge_int)
  then show ?thesis by (simp add: py_round2_def to_double_nonneg)
qed

lemma py_round2_le_one: "0 \<le> x \<Longrightarrow> x \<le> 1 \<Longrightarrow> py_round2 x \<le> 1"
proof -
  assume "0 \<le> x" and "x \<le> 1"
  then have "of_int 0 \<le> 100 * x" and "100 * x \<le> of_int 100" by simp_all
  then have k: "0 \<le> round_half_even (100 * x)" "round_half_even (100 * x) \<le> 100"
    by (simp_all only: rhe_ge_int rhe_le_int)
  show ?thesis
  proof (cases "round_half_even (100 * x) = 0")
    case True
    then show ?thesis by (simp add: py_round2_def to_double_def)
  next
    case False
    with k have "0 < round_half_even (100 * x)" by simp
    with k(2) show ?thesis by (simp add: py_round2_def to_double_le_one)
  qed
qed

lemma py_round2_pos: "1 / 200 < x \<Longrightarrow> 0 < py_round2 x"
proof -
  assume "1 / 200 < x"
  then have "of_int 1 - 1 / 2 < 100 * x" by simp
  then have "1 \<le> round_half_even (100 * x)" by (rule rhe_gt_half)
  then show ?thesis by (simp add: py_round2_def to_double_pos)
qed

lemma py_round2_fifteen: "py_round2 15 = 15"
  by code_simp

lemma py_round2_half: "py_round2 (1 / 2) = 1 / 2"
  by code_simp

lemma round_fifty_by_one: "py_round2 (truediv 50 1) = 50"
  by code_simp

lemma round_fifty_by_fifty: "py_round2 (truediv 50 50) = 1"
  by code_simp

section \<open>The analysis of \<open>dotted_corpus\<close>\<close>

lemma isspace_space: "isspace CHR '' ''"
  by (simp add: isspace_def)

lemma not_isspace_letters: "\<not> isspace CHR ''w''" "\<not> isspace CHR ''a''" "\<not> isspace CHR ''.''"
  by (simp_all add: isspace_def)

lemma split_ws_from_w:
  "split_ws_from [] (concat (replicate n ''w '') @ rest) = replicate n ''w'' @ split_ws_from [] rest"
  by (induction n) (simp_all add: isspace_space not_isspace_letters)

lemma set_dots: "set (concat (replicate n ''a.'')) \<subseteq> {CHR ''a'', CHR ''.''}"
  by (induction n) auto

lemma set_ws: "set (concat (replicate n ''w '')) \<subseteq> {CHR ''w'', CHR '' ''}"
  by (induction n) auto

lemma split_ws_dots:
  "split_ws_from [] (concat (replicate (Suc n) ''a.'')) = [concat (replicate (Suc n) ''a.'')]"
proof -
  have "\<forall>x\<in>set (concat (replicate (Suc n) ''a.'')). \<not> isspace x"
    using set_dots [of "Suc n"] not_isspace_letters by auto
  from split_ws_from_nonspace [OF this, of "[]" "[]"] show ?thesis by simp
qed

lemma split_ws_dotted:
  "split_ws (dotted_corpus (Suc n)) = replicate 49 ''w'' @ [concat (replicate (Suc n) ''a.'')]"
  unfolding split_ws_def dotted_corpus_def
  by (simp only: split_ws_from_w split_ws_dots)

lemma length_split_ws_dotted: "length (split_ws (dotted_corpus (Suc n))) = 50"
  by (simp add: split_ws_dotted)

lemma lower_concat_replicate: "lower (concat (replicate n s)) = concat (replicate n (lower s))"
  by (induction n) (simp_all add: lower_def)

lemma lower_dotted: "lower (dotted_corpus n) = dotted_corpus n"
proof -
  have "lower ''w '' = ''w ''" and "lower ''a.'' = ''a.''"
    by (simp_all add: lower_def lower_char_def)
  then show ?thesis
    by (simp add: dotted_corpus_def lower_append lower_concat_replicate)
qed

lemma card_words_dotted: "card (set (split_ws (dotted_corpus (Suc n)))) = 2"
proof -
  have "concat (replicate (Suc n) ''a.'') \<noteq> ''w''"
    by simp
  then have "set (split_ws (dotted_corpus (Suc n))) = {''w'', concat (replicate (Suc n) ''a.'')}"
    unfolding split_ws_dotted by auto
  moreover have "''w'' \<noteq> concat (replicate (Suc n) ''a.'')"
    by simp
  ultimately show ?thesis by simp
qed

lemma split_sep_dots:
  "split_sep_from (CHR ''.'') [] (concat (replicate n ''a.'')) = replicate n ''a'' @ [[]]"
proof (induction n)
  case 0
  then show ?case by simp
next
  case (Suc n)
  have "split_sep_from (CHR ''.'') [] (''a'' @ CHR ''.'' # concat (replicate n ''a.''))
      = ([] @ ''a'') # split_sep_from (CHR ''.'') [] (concat (replicate n ''a.''))"
    by (rule split_sep_from_frag) simp
  with Suc.IH show ?case by simp
qed

lemma split_sep_dotted:
  "split_sep (CHR ''.'') (dotted_corpus (Suc n))
   = (concat (replicate 49 ''w '') @ ''a'') # replicate n ''a'' @ [[]]"
proof -
  have nodot: "CHR ''.'' \<notin> set (concat (replicate 49 ''w '') @ ''a'')"
    using set_ws [of 49] by auto
  have "dotted_corpus (Suc n)
      = (concat (replicate 49 ''w '') @ ''a'') @ CHR ''.'' # concat (replicate n ''a.'')"
    by (simp add: dotted_corpus_def)
  then have "split_sep (CHR ''.'') (dotted_corpus (Suc n))
      = ([] @ concat (replicate 49 ''w '') @ ''a'')
          # split_sep_from (CHR ''.'') [] (concat (replicate n ''a.''))"
    unfolding split_sep_def by (simp only: split_sep_from_frag [OF nodot])
  then show ?thesis by (simp only: split_sep_dots append_Nil)
qed

lemma sentences_dotted:
  "length (filter (\<lambda>s. length (strip s) > 0) (split_sep (CHR ''.'') (dotted_corpus (Suc n)))) = Suc n"
proof -
  have first: "strip (concat (replicate 49 ''w '') @ ''a'') \<noteq> []"
    using not_isspace_letters by (simp add: strip_Nil_iff)
  have one: "strip ''a'' \<noteq> []"
    using not_isspace_letters by (simp add: strip_Nil_iff)
  have none: "strip [] = []"
    by (simp add: strip_def)
  show ?thesis
    unfolding split_sep_dotted using first one none by simp
qed

lemma no_phrase_dotted: "filter (\<lambda>p. contains (dotted_corpus n) p) known_phrases = []"
proof -
  have chars: "set (dotted_corpus n) \<subseteq> {CHR ''w'', CHR '' '', CHR ''a'', CHR ''.''}"
    using set_ws [of 49] set_dots [of n] by (auto simp add: dotted_corpus_def)
  have "\<not> contains (dotted_corpus n) p" if "p \<in> set known_phrases" for p
  proof
    assume "contains (dotted_corpus n) p"
    then have "sublist p (dotted_corpus n)" by (simp add: contains_sublist)
    then have "set p \<subseteq> set (dotted_corpus n)" by (rule set_mono_sublist)
    with chars have sub: "set p \<subseteq> {CHR ''w'', CHR '' '', CHR ''a'', CHR ''.''}" by simp
    from that have "CHR ''i'' \<in> set p \<or> CHR ''h'' \<in> set p \<or> CHR ''f'' \<in> set p \<or> CHR ''o'' \<in> set p"
      by (auto simp add: known_phrases_def)
    with sub show False by auto
  qed
  then show ?thesis by (simp add: filter_empty_conv)
qed

lemma analyze_dotted:
  "fst (analyze_corpus db \<lparr>user_id = u, corpus_text = dotted_corpus (Suc n)\<rparr>)
   = Inr \<lparr>avg_sentence_length = py_round2 (truediv 50 (Suc n)),
           lexical_diversity = py_round2 (truediv 2 50),
           common_phrases = []\<rparr>"
proof -
  let ?t = "dotted_corpus (Suc n)"
  let ?rq = "\<lparr>user_id = u, corpus_text = ?t\<rparr>"
  let ?S = "filter (\<lambda>s. length (strip s) > 0) (split_sep (CHR ''.'') ?t)"
  have ct: "corpus_text ?rq = ?t" by simp
  have "50 \<le> length (split_ws (corpus_text ?rq))"
    by (simp only: ct length_split_ws_dotted)
  from analyze_corpus_long [OF this, of db] obtain asm
    where "analyze_corpus db ?rq = (Inr asm, db(user_id ?rq \<mapsto> asm))" ..
  then have r: "fst (analyze_corpus db ?rq) = Inr asm" by simp
  note f = analyze_corpus_Inr [OF r, unfolded ct]
  have S: "length ?S = Suc n" by (rule sentences_dotted)
  then have Sne: "?S \<noteq> []" by auto
  have W: "split_ws ?t \<noteq> []" using length_split_ws_dotted [of n] by auto
  have a: "avg_sentence_length asm = py_round2 (truediv 50 (Suc n))"
    using f(2) by (simp only: Sne S length_split_ws_dotted if_True simp_thms)
  have d: "lexical_diversity asm = py_round2 (truediv 2 50)"
    using f(3) by (simp only: lower_dotted W card_words_dotted length_split_ws_dotted if_True simp_thms)
  have c: "common_phrases asm = []"
    using f(4) by (simp only: lower_dotted no_phrase_dotted)
  from a d c have "asm = \<lparr>avg_sentence_length = py_round2 (truediv 50 (Suc n)),
           lexical_diversity = py_round2 (truediv 2 50), common_phrases = []\<rparr>"
    by simp
  with r show ?thesis by simp
qed

lemma round_fifty_by_10001: "py_round2 (truediv 50 10001) = 0"
  by code_simp

lemma round_two_by_fifty: "py_round2 (truediv 2 50) = 5764607523034235 / 144115188075855872"
  by code_simp

section \<open>The two rounded numbers of the model\<close>

lemma truediv_pos: "0 < a \<Longrightarrow> 0 < b \<Longrightarrow> 0 < truediv a b"
  by (simp add: truediv_def to_double_pos)

lemma truediv_le_one: "0 < a \<Longrightarrow> a \<le> b \<Longrightarrow> truediv a b \<le> 1"
  by (simp add: truediv_def to_double_le_one)

lemma truediv_gt_200th: "0 < a \<Longrightarrow> 0 < b \<Longrightarrow> b \<le> 200 * a \<Longrightarrow> 1 / 200 < truediv a b"
proof -
  assume "0 < a" and "0 < b" and "b \<le> 200 * a"
  then have "0 < int a" and "0 < int b" and "int b \<le> 200 * int a"
    by simp_all
  then show ?thesis
    unfolding truediv_def by (rule to_double_gt_200th)
qed

text \<open>
  C7: when \<open>analyze_corpus\<close> returns a model, its \<open>lexical_diversity\<close> is the rounding to
  two decimals of the number of distinct lower-cased words divided by the number of
  lower-cased words (the fallback 0.5 is not taken), and it lies between 0 and 1.
\<close>

theorem lexical_diversity_unit:
  "fst (analyze_corpus db request) = Inr asm \<Longrightarrow>
   0 \<le> lexical_diversity asm \<and> lexical_diversity asm \<le> 1
   \<and> lexical_diversity asm = py_round2
        (truediv (card (set (split_ws (lower (corpus_text request)))))
                 (length (split_ws (lower (corpus_text request)))))"
proof -
  let ?words = "split_ws (lower (corpus_text request))"
  assume ok: "fst (analyze_corpus db request) = Inr asm"
  note f = analyze_corpus_Inr [OF ok]
  have "length ?words = length (split_ws (corpus_text request))"
    by (simp add: split_ws_lower)
  with f(1) have len: "50 \<le> length ?words" by simp
  then have ne: "?words \<noteq> []" by auto
  then have "set ?words \<noteq> {}" by simp
  then have cpos: "0 < card (set ?words)"
    by (simp add: card_gt_0_iff)
  have cle: "card (set ?words) \<le> length ?words"
    by (rule card_length)
  from f(3) ne have eq: "lexical_diversity asm = py_round2 (truediv (card (set ?words)) (length ?words))"
    by simp
  from cpos ne have "0 < truediv (card (set ?words)) (length ?words)"
    by (simp add: truediv_pos)
  moreover from cpos cle have "truediv (card (set ?words)) (length ?words) \<le> 1"
    by (rule truediv_le_one)
  ultimately have "0 \<le> py_round2 (truediv (card (set ?words)) (length ?words))"
    and "py_round2 (truediv (card (set ?words)) (length ?words)) \<le> 1"
    by (simp_all add: py_round2_nonneg py_round2_le_one)
  with eq show ?thesis by simp
qed

theorem lexical_diversity_unit_witness:
  "fst (analyze_corpus Map.empty \<lparr>user_id = ''v'', corpus_text = corpus_fifty\<rparr>) = Inr asm_fifty
   \<and> 0 \<le> lexical_diversity asm_fifty \<and> lexical_diversity asm_fifty \<le> 1
   \<and> lexical_diversity asm_fifty = 1"
  using analyze_fifty lexical_diversity_unit [OF analyze_fifty]
  by (simp add: asm_fifty_def)

text \<open>
  C3, as stated, fails: on \<open>dotted_corpus 10001\<close> (50 words, 10001 sentences) the quotient
  is below 0.005 and \<open>round(_, 2)\<close> returns 0.0.
\<close>

theorem avg_sentence_length_positive_counterexample:
  "50 \<le> length (split_ws (dotted_corpus 10001))
   \<and> fst (analyze_corpus Map.empty \<lparr>user_id = ''u'', corpus_text = dotted_corpus 10001\<rparr>)
       = Inr asm_dotted
   \<and> \<not> 0 < avg_sentence_length asm_dotted"
proof -
  have n: "(10001::nat) = Suc 10000" by simp
  have "length (split_ws (dotted_corpus 10001)) = 50"
    unfolding n by (rule length_split_ws_dotted)
  moreover have "fst (analyze_corpus Map.empty \<lparr>user_id = ''u'', corpus_text = dotted_corpus 10001\<rparr>)
       = Inr \<lparr>avg_sentence_length = py_round2 (truediv 50 10001),
           lexical_diversity = py_round2 (truediv 2 50),
           common_phrases = []\<rparr>"
    using analyze_dotted [of Map.empty "''u''" 10000] by (simp only: n [symmetric])
  ultimately show ?thesis
    by (simp add: round_fifty_by_10001 round_two_by_fifty asm_dotted_def)
qed

text \<open>
  C3, amended: when \<open>analyze_corpus\<close> returns a model, its \<open>avg_sentence_length\<close> is not
  negative, and it is greater than 0 whenever the number of sentences (the fragments
  between full stops that are not blank) is at most 200 times the number of words.
\<close>

theorem avg_sentence_length_sign:
  "fst (analyze_corpus db request) = Inr asm \<Longrightarrow>
   0 \<le> avg_sentence_length asm
   \<and> (length (filter (\<lambda>s. length (strip s) > 0) (split_sep (CHR ''.'') (corpus_text request)))
        \<le> 200 * length (split_ws (corpus_text request))
      \<longrightarrow> 0 < avg_sentence_length asm)"
proof -
  let ?S = "filter (\<lambda>s. length (strip s) > 0) (split_sep (CHR ''.'') (corpus_text request))"
  let ?W = "length (split_ws (corpus_text request))"
  assume ok: "fst (analyze_corpus db request) = Inr asm"
  note f = analyze_corpus_Inr [OF ok]
  from f(1) have W: "0 < ?W" by auto
  show ?thesis
  proof (cases "?S = []")
    case True
    with f(2) have "avg_sentence_length asm = py_round2 15" by simp
    then show ?thesis by (simp add: py_round2_fifteen)
  next
    case False
    then have S: "0 < length ?S" by simp
    from f(2) False have eq: "avg_sentence_length asm = py_round2 (truediv ?W (length ?S))"
      by simp
    from W S have "0 < truediv ?W (length ?S)" by (rule truediv_pos)
    then have nonneg: "0 \<le> avg_sentence_length asm"
      by (simp add: eq py_round2_nonneg)
    have "0 < avg_sentence_length asm" if "length ?S \<le> 200 * ?W"
    proof -
      from W S that have "1 / 200 < truediv ?W (length ?S)" by (rule truediv_gt_200th)
      then show ?thesis by (simp add: eq py_round2_pos)
    qed
    with nonneg show ?thesis by simp
  qed
qed

theorem avg_sentence_length_sign_witness:
  "fst (analyze_corpus Map.empty \<lparr>user_id = ''v'', corpus_text = corpus_fifty\<rparr>) = Inr asm_fifty
   \<and> length (filter (\<lambda>s. length (strip s) > 0) (split_sep (CHR ''.'') corpus_fifty))
        \<le> 200 * length (split_ws corpus_fifty)
   \<and> 0 < avg_sentence_length asm_fifty"
proof -
  have few: "length (filter (\<lambda>s. length (strip s) > 0) (split_sep (CHR ''.'') corpus_fifty))
      \<le> 200 * length (split_ws corpus_fifty)"
    by code_simp
  with analyze_fifty avg_sentence_length_sign [OF analyze_fifty] show ?thesis
    by simp
qed

section \<open>Fifty distinct words and one full stop\<close>

lemma analyze_mixed_case:
  "fst (analyze_corpus Map.empty \<lparr>user_id = ''u'', corpus_text = corpus_mixed_case\<rparr>)
   = Inr asm_mixed_case"
  by code_simp

lemma analyze_capital_phrase:
  "fst (analyze_corpus Map.empty \<lparr>user_id = ''u'', corpus_text = corpus_capital_phrase\<rparr>)
   = Inr asm_capital_phrase"
  by code_simp

lemma mixed_case_shape:
  "length (split_ws corpus_mixed_case) = 50"
  "distinct (split_ws corpus_mixed_case)"
  "corpus_mixed_case = butlast corpus_mixed_case @ ''.''"
  "CHR ''.'' \<notin> set (butlast corpus_mixed_case)"
  "filter (\<lambda>p. sublist p corpus_mixed_case) known_phrases = []"
  by code_simp+

lemma capital_phrase_shape:
  "length (split_ws corpus_capital_phrase) = 50"
  "distinct (split_ws corpus_capital_phrase)"
  "corpus_capital_phrase = butlast corpus_capital_phrase @ ''.''"
  "CHR ''.'' \<notin> set (butlast corpus_capital_phrase)"
  "filter (\<lambda>p. sublist p corpus_capital_phrase) known_phrases = []"
  by code_simp+

text \<open>
  C6, as stated, fails twice, because the analysis lower-cases the text before it counts
  distinct words and before it looks for phrases. \<open>corpus_mixed_case\<close> has 50 pairwise
  distinct words, among them \<open>A\<close> and \<open>a\<close>, one full stop at its end and no known phrase:
  its lexical diversity is 49/50, returned as 0.98. \<open>corpus_capital_phrase\<close> has 50 pairwise
  distinct words, one full stop at its end and no known phrase as written, but starts
  with \<open>However,\<close>: its common phrases are not empty.
\<close>

theorem fifty_distinct_words_counterexample:
  "length (split_ws corpus_mixed_case) = 50
   \<and> distinct (split_ws corpus_mixed_case)
   \<and> corpus_mixed_case = butlast corpus_mixed_case @ ''.''
   \<and> CHR ''.'' \<notin> set (butlast corpus_mixed_case)
   \<and> filter (\<lambda>p. sublist p corpus_mixed_case) known_phrases = []
   \<and> fst (analyze_corpus Map.empty \<lparr>user_id = ''u'', corpus_text = corpus_mixed_case\<rparr>)
       = Inr asm_mixed_case
   \<and> lexical_diversity asm_mixed_case \<noteq> 1
   \<and> length (split_ws corpus_capital_phrase) = 50
   \<and> distinct (split_ws corpus_capital_phrase)
   \<and> corpus_capital_phrase = butlast corpus_capital_phrase @ ''.''
   \<and> CHR ''.'' \<notin> set (butlast corpus_capital_phrase)
   \<and> filter (\<lambda>p. sublist p corpus_capital_phrase) known_phrases = []
   \<and> fst (analyze_corpus Map.empty \<lparr>user_id = ''u'', corpus_text = corpus_capital_phrase\<rparr>)
       = Inr asm_capital_phrase
   \<and> common_phrases asm_capital_phrase \<noteq> []"
proof -
  have "lexical_diversity asm_mixed_case \<noteq> 1"
    by (simp add: asm_mixed_case_def)
  moreover have "common_phrases asm_capital_phrase \<noteq> []"
    by (simp add: asm_capital_phrase_def)
  ultimately show ?thesis
    using mixed_case_shape capital_phrase_shape analyze_mixed_case analyze_capital_phrase
    by blast
qed

lemma split_ws_blank_stop:
  assumes "\<forall>c\<in>set body. isspace c"
  shows "length (split_ws (body @ ''.'')) = 1"
proof -
  have "split_ws_from [] (body @ ''.'') = split_ws_from [] ''.''"
    using assms by (rule split_ws_from_space)
  then show ?thesis
    by (simp add: split_ws_def isspace_def)
qed

lemma sentences_one_stop:
  assumes nodot: "CHR ''.'' \<notin> set body"
    and words: "length (split_ws (body @ ''.'')) = 50"
  shows "filter (\<lambda>s. length (strip s) > 0) (split_sep (CHR ''.'') (body @ ''.'')) = [body]"
proof -
  have "split_sep_from (CHR ''.'') [] (body @ CHR ''.'' # [])
      = ([] @ body) # split_sep_from (CHR ''.'') [] []"
    using nodot by (rule split_sep_from_frag)
  then have parts: "split_sep (CHR ''.'') (body @ ''.'') = [body, []]"
    by (simp add: split_sep_def)
  have "\<not> (\<forall>c\<in>set body. isspace c)"
  proof
    assume "\<forall>c\<in>set body. isspace c"
    then have "length (split_ws (body @ ''.'')) = 1"
      by (rule split_ws_blank_stop)
    with words show False by simp
  qed
  then have body: "strip body \<noteq> []"
    by (simp add: strip_Nil_iff)
  have "strip [] = []"
    by (simp add: strip_def)
  with body show ?thesis
    by (simp add: parts)
qed

text \<open>
  C6, amended: a text that ends with its only full stop, has exactly 50 words which are
  pairwise distinct after lower-casing, and whose lower-cased form contains no known
  phrase, is analysed with one sentence: \<open>avg_sentence_length = 50.0\<close>,
  \<open>lexical_diversity = 1.0\<close> and \<open>common_phrases = []\<close>.
\<close>

theorem fifty_distinct_words_profile:
  assumes shape: "text = body @ ''.''"
    and nodot: "CHR ''.'' \<notin> set body"
    and words: "length (split_ws text) = 50"
    and dist: "distinct (split_ws (lower text))"
    and plain: "\<forall>p\<in>set known_phrases. \<not> sublist p (lower text)"
  shows "fst (analyze_corpus db \<lparr>user_id = u, corpus_text = text\<rparr>)
    = Inr \<lparr>avg_sentence_length = 50, lexical_diversity = 1, common_phrases = []\<rparr>"
proof -
  let ?rq = "\<lparr>user_id = u, corpus_text = text\<rparr>"
  let ?S = "filter (\<lambda>s. length (strip s) > 0) (split_sep (CHR ''.'') text)"
  let ?words = "split_ws (lower text)"
  have ct: "corpus_text ?rq = text" by simp
  have "50 \<le> length (split_ws (corpus_text ?rq))"
    by (simp only: ct words)
  from analyze_corpus_long [OF this, of db] obtain asm
    where "analyze_corpus db ?rq = (Inr asm, db(user_id ?rq \<mapsto> asm))" ..
  then have r: "fst (analyze_corpus db ?rq) = Inr asm" by simp
  note f = analyze_corpus_Inr [OF r, unfolded ct]
  have S: "?S = [body]"
    using nodot words unfolding shape by (rule sentences_one_stop)
  have a: "avg_sentence_length asm = 50"
  proof -
    have "avg_sentence_length asm = py_round2 (truediv 50 (length [body]))"
      using f(2) unfolding S words by simp
    also have "length [body] = 1" by simp
    finally show ?thesis by (simp only: round_fifty_by_one)
  qed
  have len: "length ?words = 50"
    by (simp add: split_ws_lower words)
  then have ne: "?words \<noteq> []" by auto
  have "card (set ?words) = 50"
    using dist len by (simp add: distinct_card)
  with f(3) ne len have d: "lexical_diversity asm = 1"
    by (simp only: if_True simp_thms round_fifty_by_fifty)
  have "filter (\<lambda>p. contains (lower text) p) known_phrases = []"
    using plain by (simp add: filter_empty_conv contains_sublist)
  with f(4) have c: "common_phrases asm = []" by simp
  from a d c have "asm = \<lparr>avg_sentence_length = 50, lexical_diversity = 1, common_phrases = []\<rparr>"
    by simp
  with r show ?thesis by simp
qed

theorem fifty_distinct_words_profile_witness:
  "corpus_fifty = butlast corpus_fifty @ ''.''
   \<and> CHR ''.'' \<notin> set (butlast corpus_fifty)
   \<and> length (split_ws corpus_fifty) = 50
   \<and> distinct (split_ws (lower corpus_fifty))
   \<and> filter (\<lambda>p. sublist p (lower corpus_fifty)) known_phrases = []
   \<and> fst (analyze_corpus Map.empty \<lparr>user_id = ''v'', corpus_text = corpus_fifty\<rparr>)
       = Inr \<lparr>avg_sentence_length = 50, lexical_diversity = 1, common_phrases = []\<rparr>"
proof -
  have h1: "corpus_fifty = butlast corpus_fifty @ ''.''" by code_simp
  have h2: "CHR ''.'' \<notin> set (butlast corpus_fifty)" by code_simp
  have h3: "length (split_ws corpus_fifty) = 50" by code_simp
  have h4: "distinct (split_ws (lower corpus_fifty))" by code_simp
  have h5: "filter (\<lambda>p. sublist p (lower corpus_fifty)) known_phrases = []" by code_simp
  then have h5': "\<forall>p\<in>set known_phrases. \<not> sublist p (lower corpus_fifty)"
    by (simp add: filter_empty_conv)
  from h1 h2 h3 h4 h5
    fifty_distinct_words_profile [OF h1 h2 h3 h4 h5', of Map.empty "''v''"]
  show ?thesis by blast
qed

end
